theory Spec2Isabelle
  imports Complex_Main "HOL-Library.Word"
begin

section \<open>The class \<open>Diffs\<close> of \<open>include/dai/util.h\<close>\<close>

text \<open>
  \<open>Diffs\<close> keeps the last \<open>_maxsize\<close> differences registered by an iterative algorithm
  in a \<open>std::vector<Real>\<close> that it inherits from, together with two iterators into
  that vector: \<open>_pos\<close>, one past the slot written last, and \<open>_maxpos\<close>, the slot holding the
  largest stored difference.  The embedding below follows the class member by member.
\<close>

subsection \<open>The element type\<close>

text \<open>
  \<open>typedef double Real\<close>.  The class never computes with a \<open>Real\<close>: it copies values and
  compares them with \<open><\<close> and \<open>>\<close>.  A double is therefore modelled by what these
  comparisons can see of it: it is not-a-number, one of the two infinities, or a finite
  number.  (The two signed zeros compare equal and are one value here.)
\<close>

datatype Real = NaN | MInf | Fin real | PInf

text \<open>\<open>operator<\<close> on doubles: every comparison with a NaN is false.\<close>

fun Real_less :: "Real \<Rightarrow> Real \<Rightarrow> bool" where
  "Real_less NaN y = False"
| "Real_less x NaN = False"
| "Real_less PInf y = False"
| "Real_less x MInf = False"
| "Real_less MInf y = True"
| "Real_less x PInf = True"
| "Real_less (Fin a) (Fin b) = (a < b)"

text \<open>\<open>operator>\<close> on doubles.\<close>

definition Real_greater :: "Real \<Rightarrow> Real \<Rightarrow> bool" where
  "Real_greater x y = Real_less y x"

subsection \<open>Failures\<close>

text \<open>
  \<open>Length_error\<close> is the \<open>std::length_error\<close> that \<open>std::vector::reserve\<close> throws.
  \<open>Out_of_bounds\<close> marks a read or write through an iterator that does not point to an
  element of the vector (undefined behaviour in C++).
\<close>

datatype error = Length_error | Out_of_bounds

subsection \<open>The object\<close>

type_synonym long = "64 word"
type_synonym size_t = "64 word"

text \<open>
  On an LP64 target a \<open>long\<close> is a 64-bit word read as a signed number (\<open>sint\<close>) and a
  \<open>size_t\<close> a 64-bit word read as an unsigned one (\<open>unat\<close>).

  \<open>elems\<close> is the inherited \<open>std::vector<Real>\<close>; the other fields are the private
  members \<open>_maxsize\<close>, \<open>_def\<close>, \<open>_pos\<close> and \<open>_maxpos\<close>, written \<open>m_maxsize\<close>, \<open>m_def\<close>,
  \<open>m_pos\<close> and \<open>m_maxpos\<close> because a name cannot begin with an underscore here.  An
  iterator is the index of the slot
  it points to: \<open>begin()\<close> is \<open>0\<close> and \<open>end()\<close> is the length of \<open>elems\<close>.  The constructor
  reserves room for \<open>_maxsize\<close> elements and \<open>push_back\<close> is only called below that size, so
  the storage never moves and an index keeps denoting the same slot.
\<close>

record Diffs =
  elems :: "Real list"
  m_maxsize :: size_t
  m_def :: Real
  m_pos :: nat
  m_maxpos :: nat

text \<open>\<open>*it\<close> as an rvalue, and the assignment \<open>*it = x\<close>.\<close>

definition deref :: "Real list \<Rightarrow> nat \<Rightarrow> error + Real" where
  "deref v it = (if it < length v then Inr (v ! it) else Inl Out_of_bounds)"

definition assign :: "Real list \<Rightarrow> nat \<Rightarrow> Real \<Rightarrow> error + Real list" where
  "assign v it x = (if it < length v then Inr (v[it := x]) else Inl Out_of_bounds)"

text \<open>
  \<open>std::max_element(first, last)\<close> with \<open>operator<\<close>: the result starts at the first
  element and moves to a later one only when that one is strictly larger than the current
  result; on an empty range it returns \<open>last\<close>.  \<open>max_element_loop\<close> is the loop over the
  elements after the first, carrying the current result (iterator and value) and the
  iterator of the element under inspection.
\<close>

fun max_element_loop :: "Real list \<Rightarrow> nat \<Rightarrow> Real \<Rightarrow> nat \<Rightarrow> nat" where
  "max_element_loop [] largest lv first = largest"
| "max_element_loop (y # ys) largest lv first =
     (if Real_less lv y then max_element_loop ys first y (first + 1)
      else max_element_loop ys largest lv (first + 1))"

definition max_element :: "Real list \<Rightarrow> nat" where
  "max_element v = (case v of [] \<Rightarrow> 0 | x # xs \<Rightarrow> max_element_loop xs 0 x 1)"

text \<open>
  The constructor \<open>Diffs(long maxsize, Real def)\<close>.  The member \<open>_maxsize\<close> is a \<open>size_t\<close>,
  so the \<open>long\<close> argument is converted modulo \<open>2^64\<close>.  \<open>reserve(_maxsize)\<close> throws
  \<open>std::length_error\<close> when the request exceeds the vector's \<open>max_size()\<close>; that constant
  belongs to the standard library and is the parameter \<open>max_size\<close> here.  Memory is assumed
  to be available for every request within \<open>max_size()\<close>.
\<close>

definition Diffs_ctor :: "nat \<Rightarrow> long \<Rightarrow> Real \<Rightarrow> error + Diffs" where
  "Diffs_ctor max_size maxsize def =
     (let ms = (word_of_int (sint maxsize) :: size_t) in
      if max_size < unat ms then Inl Length_error
      else Inr \<lparr>elems = [], m_maxsize = ms, m_def = def, m_pos = 0, m_maxpos = 0\<rparr>)"

text \<open>
  \<open>Real maxDiff()\<close>.  The member function is not declared \<open>const\<close>, so the model returns
  the object along with the value.
\<close>

definition maxDiff :: "Diffs \<Rightarrow> error + (Real \<times> Diffs)" where
  "maxDiff d =
     (if length (elems d) < unat (m_maxsize d) then Inr (m_def d, d)
      else (case deref (elems d) (m_maxpos d) of
              Inl e \<Rightarrow> Inl e
            | Inr m \<Rightarrow> Inr (m, d)))"

text \<open>
  \<open>void push(Real x)\<close>.  In the first branch \<open>v\<close> is the vector after \<open>push_back(x)\<close>, so
  \<open>end()\<close> is \<open>length v\<close> and \<open>back()\<close> is its last slot.  In the second branch \<open>p\<close> is \<open>_pos\<close>
  after the wrap-around \<open>if( _pos == end() ) _pos = begin()\<close>, and \<open>*_pos++ = x\<close> writes
  slot \<open>p\<close> and leaves \<open>_pos\<close> at \<open>p + 1\<close>.
\<close>

definition push :: "Real \<Rightarrow> Diffs \<Rightarrow> error + Diffs" where
  "push x d =
     (if length (elems d) < unat (m_maxsize d) then
        (let v = elems d @ [x] in
         if length v > 1 then
           (case deref v (m_maxpos d) of
              Inl e \<Rightarrow> Inl e
            | Inr m \<Rightarrow>
                (case deref v (length v - 1) of
                   Inl e \<Rightarrow> Inl e
                 | Inr b \<Rightarrow>
                     if Real_less m b
                     then Inr (d\<lparr>elems := v, m_pos := length v, m_maxpos := length v - 1\<rparr>)
                     else Inr (d\<lparr>elems := v, m_pos := length v\<rparr>)))
         else Inr (d\<lparr>elems := v, m_pos := length v, m_maxpos := 0\<rparr>))
      else
        (let p = (if m_pos d = length (elems d) then 0 else m_pos d) in
         if m_maxpos d = p then
           (case assign (elems d) p x of
              Inl e \<Rightarrow> Inl e
            | Inr v \<Rightarrow> Inr (d\<lparr>elems := v, m_pos := p + 1, m_maxpos := max_element v\<rparr>))
         else
           (case deref (elems d) (m_maxpos d) of
              Inl e \<Rightarrow> Inl e
            | Inr m \<Rightarrow>
                (let mp = (if Real_greater x m then p else m_maxpos d) in
                 case assign (elems d) p x of
                   Inl e \<Rightarrow> Inl e
                 | Inr v \<Rightarrow> Inr (d\<lparr>elems := v, m_pos := p + 1, m_maxpos := mp\<rparr>)))))"

text \<open>\<open>size_t maxSize()\<close>.\<close>

definition maxSize :: "Diffs \<Rightarrow> size_t \<times> Diffs" where
  "maxSize d = (m_maxsize d, d)"

subsection \<open>Sequences of calls\<close>

text \<open>A caller that registers the differences \<open>xs\<close> one after the other.\<close>

fun pushes :: "Diffs \<Rightarrow> Real list \<Rightarrow> error + Diffs" where
  "pushes d [] = Inr d"
| "pushes d (x # xs) = (case push x d of Inl e \<Rightarrow> Inl e | Inr d' \<Rightarrow> pushes d' xs)"

text \<open>
  A caller that registers the differences \<open>xs\<close> and asks for \<open>maxDiff()\<close> after each of
  them; the result is the list of the answers.
\<close>

fun trace :: "Diffs \<Rightarrow> Real list \<Rightarrow> error + Real list" where
  "trace d [] = Inr []"
| "trace d (x # xs) =
     (case push x d of
        Inl e \<Rightarrow> Inl e
      | Inr d1 \<Rightarrow>
          (case maxDiff d1 of
             Inl e \<Rightarrow> Inl e
           | Inr (m, d2) \<Rightarrow>
               (case trace d2 xs of Inl e \<Rightarrow> Inl e | Inr ms \<Rightarrow> Inr (m # ms))))"

text \<open>The same caller, starting with the construction of the object.\<close>

definition maxDiff_trace :: "nat \<Rightarrow> long \<Rightarrow> Real \<Rightarrow> Real list \<Rightarrow> error + Real list" where
  "maxDiff_trace max_size maxsize def xs =
     (case Diffs_ctor max_size maxsize def of Inl e \<Rightarrow> Inl e | Inr d \<Rightarrow> trace d xs)"

text \<open>An arbitrary sequence of calls of the two member functions, with the answers.\<close>

datatype call = Push Real | MaxDiff

fun run :: "Diffs \<Rightarrow> call list \<Rightarrow> error + (Real list \<times> Diffs)" where
  "run d [] = Inr ([], d)"
| "run d (Push x # cs) = (case push x d of Inl e \<Rightarrow> Inl e | Inr d' \<Rightarrow> run d' cs)"
| "run d (MaxDiff # cs) =
     (case maxDiff d of
        Inl e \<Rightarrow> Inl e
      | Inr (m, d') \<Rightarrow>
          (case run d' cs of Inl e \<Rightarrow> Inl e | Inr (ms, d'') \<Rightarrow> Inr (m # ms, d'')))"

subsection \<open>The maximum of a window, as the specification words it\<close>

text \<open>
  The specification ranks a NaN below every other value (``NaN is never greater than any
  value''): \<open>ranks_above y m\<close> says that \<open>y\<close> beats \<open>m\<close> under that ranking, and \<open>m\<close> is the
  maximum of a window when it occurs in the window and nothing in the window beats it.
  On windows without NaN this is the greatest element.
\<close>

definition ranks_above :: "Real \<Rightarrow> Real \<Rightarrow> bool" where
  "ranks_above y m = (y \<noteq> NaN \<and> (m = NaN \<or> Real_less m y))"

definition is_maximum :: "Real \<Rightarrow> Real list \<Rightarrow> bool" where
  "is_maximum m ws = (m \<in> set ws \<and> list_all (\<lambda>y. \<not> ranks_above y m) ws)"

text \<open>The last \<open>n\<close> elements of a list (the whole list if it is shorter).\<close>

definition last_n :: "nat \<Rightarrow> 'a list \<Rightarrow> 'a list" where
  "last_n n xs = drop (length xs - n) xs"


subsection \<open>Invariants of the object\<close>

text \<open>
  \<open>dominates v i\<close>: no slot of \<open>v\<close> compares greater than slot \<open>i\<close>.
  \<open>earliest v i\<close>: slot \<open>i\<close> beats every slot before it (a NaN ranking lowest), so no
  earlier slot holds an equal or a larger value.
\<close>

definition dominates :: "Real list \<Rightarrow> nat \<Rightarrow> bool" where
  "dominates v i = (\<forall>j<length v. \<not> Real_less (v ! i) (v ! j))"

definition earliest :: "Real list \<Rightarrow> nat \<Rightarrow> bool" where
  "earliest v i = (\<forall>j<i. ranks_above (v ! i) (v ! j))"

text \<open>
  \<open>wf\<close>: the capacity is positive, the vector has not outgrown it, and both iterators are
  in range (\<open>_pos\<close> may be \<open>end()\<close>, \<open>_maxpos\<close> points to an element once there is one).
\<close>

definition wf :: "Diffs \<Rightarrow> bool" where
  "wf d = (1 \<le> unat (m_maxsize d) \<and> length (elems d) \<le> unat (m_maxsize d) \<and>
     m_pos d \<le> length (elems d) \<and> (elems d = [] \<or> m_maxpos d < length (elems d)))"

text \<open>
  \<open>tracks d h\<close>: the object \<open>d\<close> is what the pushes \<open>h\<close> (oldest first) lead to.  Read from
  \<open>_pos\<close> onwards and then from the start up to \<open>_pos\<close>, the vector lists the last
  \<open>_maxsize\<close> pushes in their order, and nothing in it compares greater than the slot under
  \<open>_maxpos\<close>.
\<close>

definition tracks :: "Diffs \<Rightarrow> Real list \<Rightarrow> bool" where
  "tracks d h = (wf d \<and> length (elems d) = min (length h) (unat (m_maxsize d)) \<and>
     (length (elems d) < unat (m_maxsize d) \<longrightarrow> m_pos d = length (elems d)) \<and>
     drop (m_pos d) (elems d) @ take (m_pos d) (elems d) = last_n (unat (m_maxsize d)) h \<and>
     dominates (elems d) (m_maxpos d))"

text \<open>
  \<open>nan_front d\<close>: a NaN is under \<open>_maxpos\<close> only when \<open>_maxpos\<close> is the first slot.
\<close>

definition nan_front :: "Diffs \<Rightarrow> bool" where
  "nan_front d = (elems d = [] \<or> elems d ! m_maxpos d \<noteq> NaN \<or> m_maxpos d = 0)"

text \<open>
  \<open>fills d h\<close>: while the window fills, the vector is the list of the pushes, \<open>_maxpos\<close>
  is on the earliest of its largest values, and \<open>_maxpos\<close> is still the first slot if that
  slot holds a NaN.
\<close>

definition fills :: "Diffs \<Rightarrow> Real list \<Rightarrow> bool" where
  "fills d h = (elems d = h \<and> earliest h (m_maxpos d) \<and>
     (h = [] \<or> h ! 0 \<noteq> NaN \<or> m_maxpos d = 0))"

section \<open>Properties\<close>

subsection \<open>Comparison of doubles\<close>

lemma Real_less_irrefl: "\<not> Real_less x x"
  by (cases x) auto
lemma Real_less_trans: "Real_less x y \<Longrightarrow> Real_less y z \<Longrightarrow> Real_less x z"
  by (cases x; cases y; cases z) auto
lemma Real_less_not_NaN: "Real_less x y \<Longrightarrow> x \<noteq> NaN \<and> y \<noteq> NaN"
  by (cases x; cases y) auto
lemma Real_less_total: "x \<noteq> NaN \<Longrightarrow> y \<noteq> NaN \<Longrightarrow> Real_less x y \<or> x = y \<or> Real_less y x"
  by (cases x; cases y) auto

subsection \<open>The conversion from \<open>long\<close> to \<open>size_t\<close>\<close>

lemma size_t_of_long: "unat (word_of_int (sint n) :: size_t) = nat (sint n mod 2 ^ 64)" for n :: long
proof -
  have "uint (word_of_int (sint n) :: size_t) = sint n mod 2 ^ 64"
    by (simp only: uint_word_of_int len_bit0 len_num1 One_nat_def) simp
  then show ?thesis by (simp only: unat_eq_nat_uint)
qed
lemma long_range: "- (2 ^ 63) \<le> sint n \<and> sint n < 2 ^ 63" for n :: long
  using sint_ge [of n] sint_lt [of n] by simp
lemma size_t_of_long_pos: "1 \<le> sint n \<Longrightarrow> unat (word_of_int (sint n) :: size_t) = nat (sint n)" for n :: long
proof -
  assume "1 \<le> sint n"
  with long_range [of n] have "sint n mod 2 ^ 64 = sint n" by simp
  then show ?thesis by (simp only: size_t_of_long)
qed
lemma size_t_of_long_neg: "sint n < 0 \<Longrightarrow> 2 ^ 63 \<le> unat (word_of_int (sint n) :: size_t)" for n :: long
proof -
  assume neg: "sint n < 0"
  have "sint n mod 2 ^ 64 = (sint n + 2 ^ 64) mod 2 ^ 64" by simp
  also have "\<dots> = sint n + 2 ^ 64"
    using long_range [of n] neg by (intro mod_pos_pos_trivial) simp_all
  finally have "sint n mod 2 ^ 64 = sint n + 2 ^ 64" .
  with long_range [of n] have "(2::int) ^ 63 \<le> sint n mod 2 ^ 64" by simp
  then have "nat (2 ^ 63) \<le> nat (sint n mod 2 ^ 64)" by (rule nat_mono)
  then show ?thesis by (simp only: size_t_of_long) simp
qed

subsection \<open>\<open>std::max_element\<close>\<close>

lemma max_element_loop_bound:
  "largest < first \<Longrightarrow> max_element_loop ys largest lv first < first + length ys"
proof (induction ys arbitrary: largest lv first)
  case Nil
  then show ?case by simp
next
  case (Cons y ys)
  have "max_element_loop ys first y (first + 1) < first + 1 + length ys"
    by (rule Cons.IH) simp
  moreover have "max_element_loop ys largest lv (first + 1) < first + 1 + length ys"
    by (rule Cons.IH) (use Cons.prems in simp)
  ultimately show ?case by simp
qed

lemma max_element_less: "v \<noteq> [] \<Longrightarrow> max_element v < length v"
proof (cases v)
  case Nil
  assume "v \<noteq> []"
  with Nil show ?thesis by simp
next
  case (Cons x xs)
  have "max_element_loop xs 0 x 1 < 1 + length xs"
    by (rule max_element_loop_bound) simp
  with Cons show ?thesis by (simp add: max_element_def)
qed

lemma max_element_loop_dominates:
  assumes "length pre = first" and "largest < first" and "pre ! largest = lv"
    and "dominates pre largest"
  shows "dominates (pre @ ys) (max_element_loop ys largest lv first)"
  using assms
proof (induction ys arbitrary: pre largest lv first)
  case Nil
  then show ?case by simp
next
  case (Cons y ys)
  show ?case
  proof (cases "Real_less lv y")
    case True
    have dom: "dominates (pre @ [y]) first"
      unfolding dominates_def
    proof (intro allI impI)
      fix j assume j: "j < length (pre @ [y])"
      show "\<not> Real_less ((pre @ [y]) ! first) ((pre @ [y]) ! j)"
      proof (cases "j < first")
        case jlt: True
        with Cons.prems have "\<not> Real_less lv (pre ! j)"
          by (simp add: dominates_def)
        with True have "\<not> Real_less y (pre ! j)"
          using Real_less_trans by blast
        with jlt Cons.prems show ?thesis by (simp add: nth_append)
      next
        case False
        with j Cons.prems have "j = first" by simp
        with Cons.prems show ?thesis by (simp add: nth_append Real_less_irrefl)
      qed
    qed
    have "dominates ((pre @ [y]) @ ys) (max_element_loop ys first y (first + 1))"
      by (rule Cons.IH) (use Cons.prems dom in \<open>simp_all add: nth_append\<close>)
    with True show ?thesis by simp
  next
    case False
    have dom: "dominates (pre @ [y]) largest"
      unfolding dominates_def
    proof (intro allI impI)
      fix j assume j: "j < length (pre @ [y])"
      show "\<not> Real_less ((pre @ [y]) ! largest) ((pre @ [y]) ! j)"
      proof (cases "j < first")
        case True
        with Cons.prems show ?thesis by (simp add: dominates_def nth_append)
      next
        case nlt: False
        with j Cons.prems have "j = first" by simp
        with Cons.prems False show ?thesis by (simp add: nth_append)
      qed
    qed
    have "dominates ((pre @ [y]) @ ys) (max_element_loop ys largest lv (first + 1))"
      by (rule Cons.IH) (use Cons.prems dom in \<open>simp_all add: nth_append\<close>)
    with False show ?thesis by simp
  qed
qed

lemma max_element_dominates: "dominates v (max_element v)"
proof (cases v)
  case Nil
  then show ?thesis by (simp add: dominates_def)
next
  case (Cons x xs)
  have "dominates ([x] @ xs) (max_element_loop xs 0 x 1)"
    by (rule max_element_loop_dominates) (simp_all add: dominates_def Real_less_irrefl)
  with Cons show ?thesis by (simp add: max_element_def)
qed

subsection \<open>The three cases of \<open>push\<close>\<close>

lemma push_first:
  assumes "elems d = []" and "1 \<le> unat (m_maxsize d)"
  shows "push x d = Inr (d\<lparr>elems := [x], m_pos := 1, m_maxpos := 0\<rparr>)"
  using assms by (simp add: push_def)

lemma push_filling:
  assumes "elems d \<noteq> []" and "length (elems d) < unat (m_maxsize d)"
    and "m_maxpos d < length (elems d)"
  shows "push x d = Inr (d\<lparr>elems := elems d @ [x], m_pos := length (elems d) + 1,
           m_maxpos := (if Real_less (elems d ! m_maxpos d) x then length (elems d) else m_maxpos d)\<rparr>)"
  using assms by (simp add: push_def deref_def nth_append)

lemma push_full:
  assumes "length (elems d) = unat (m_maxsize d)" and "elems d \<noteq> []"
    and "m_pos d \<le> length (elems d)" and "m_maxpos d < length (elems d)"
    and "p = (if m_pos d = length (elems d) then 0 else m_pos d)"
  shows "push x d = Inr (d\<lparr>elems := (elems d)[p := x], m_pos := p + 1,
           m_maxpos := (if m_maxpos d = p then max_element ((elems d)[p := x])
                        else if Real_less (elems d ! m_maxpos d) x then p else m_maxpos d)\<rparr>)"
  using assms by (auto simp add: push_def deref_def assign_def Real_greater_def Let_def)

subsection \<open>Lists\<close>

lemma last_n_short: "length h \<le> n \<Longrightarrow> last_n n h = h"
  by (simp add: last_n_def)

lemma last_n_snoc:
  assumes "1 \<le> n" and "n \<le> length h"
  shows "last_n n (h @ [x]) = tl (last_n n h) @ [x]"
proof -
  from assms have "length h + 1 - n = Suc (length h - n)" by simp
  with assms show ?thesis by (simp add: last_n_def drop_Suc tl_drop)
qed

lemma rotate_write:
  assumes "p < length v"
  shows "drop (Suc p) (v[p := x]) @ take (Suc p) (v[p := x]) = tl (drop p v @ take p v) @ [x]"
proof -
  from assms have "drop p v \<noteq> []" by simp
  then have "tl (drop p v @ take p v) = drop (Suc p) v @ take p v"
    by (simp add: drop_Suc tl_drop)
  moreover from assms have "take (Suc p) (v[p := x]) = take p v @ [x]"
    by (simp add: take_Suc_conv_app_nth)
  ultimately show ?thesis by simp
qed

lemma dominates_single: "dominates [x] 0"
  by (simp add: dominates_def Real_less_irrefl)

lemma dominates_snoc:
  assumes "dominates v mp" and "mp < length v"
  shows "dominates (v @ [x]) (if Real_less (v ! mp) x then length v else mp)"
  unfolding dominates_def
proof (intro allI impI)
  fix j assume "j < length (v @ [x])"
  then consider "j < length v" | "j = length v" by fastforce
  then show "\<not> Real_less ((v @ [x]) ! (if Real_less (v ! mp) x then length v else mp)) ((v @ [x]) ! j)"
  proof cases
    case 1
    with assms have "\<not> Real_less (v ! mp) (v ! j)" by (simp add: dominates_def)
    then have "Real_less (v ! mp) x \<Longrightarrow> \<not> Real_less x (v ! j)"
      using Real_less_trans by blast
    with 1 assms \<open>\<not> Real_less (v ! mp) (v ! j)\<close> show ?thesis by (auto simp add: nth_append)
  next
    case 2
    with assms show ?thesis by (simp add: nth_append Real_less_irrefl)
  qed
qed

lemma dominates_update:
  assumes "dominates v mp" and "mp < length v" and "p < length v" and "p \<noteq> mp"
  shows "dominates (v[p := x]) (if Real_less (v ! mp) x then p else mp)"
  unfolding dominates_def
proof (intro allI impI)
  fix j assume "j < length (v[p := x])"
  then have j: "j < length v" by simp
  with assms have dom: "\<not> Real_less (v ! mp) (v ! j)" by (simp add: dominates_def)
  then have "Real_less (v ! mp) x \<Longrightarrow> \<not> Real_less x (v ! j)"
    using Real_less_trans by blast
  with dom j assms
  show "\<not> Real_less (v[p := x] ! (if Real_less (v ! mp) x then p else mp)) (v[p := x] ! j)"
    by (auto simp add: nth_list_update Real_less_irrefl)
qed


subsection \<open>Every push keeps the invariants\<close>

lemma wf_push:
  assumes "wf d"
  shows "\<exists>d'. push x d = Inr d' \<and> wf d' \<and> m_maxsize d' = m_maxsize d \<and> m_def d' = m_def d"
proof -
  consider (first) "elems d = []"
    | (filling) "elems d \<noteq> []" "length (elems d) < unat (m_maxsize d)"
    | (full) "elems d \<noteq> []" "length (elems d) = unat (m_maxsize d)"
    using assms by (fastforce simp add: wf_def)
  then show ?thesis
  proof cases
    case first
    with assms have "push x d = Inr (d\<lparr>elems := [x], m_pos := 1, m_maxpos := 0\<rparr>)"
      by (intro push_first) (simp_all add: wf_def)
    with assms show ?thesis by (simp add: wf_def)
  next
    case filling
    with assms have "push x d = Inr (d\<lparr>elems := elems d @ [x], m_pos := length (elems d) + 1,
           m_maxpos := (if Real_less (elems d ! m_maxpos d) x then length (elems d) else m_maxpos d)\<rparr>)"
      by (intro push_filling) (simp_all add: wf_def)
    with assms filling show ?thesis by (simp add: wf_def)
  next
    case full
    define p where "p = (if m_pos d = length (elems d) then 0 else m_pos d)"
    from full assms have p: "p < length (elems d)" by (auto simp add: p_def wf_def)
    from full assms p_def
    have "push x d = Inr (d\<lparr>elems := (elems d)[p := x], m_pos := p + 1,
           m_maxpos := (if m_maxpos d = p then max_element ((elems d)[p := x])
                        else if Real_less (elems d ! m_maxpos d) x then p else m_maxpos d)\<rparr>)"
      by (intro push_full) (simp_all add: wf_def)
    moreover have "max_element ((elems d)[p := x]) < length (elems d)"
      using max_element_less [of "(elems d)[p := x]"] full by simp
    ultimately show ?thesis using assms full p by (simp add: wf_def)
  qed
qed

lemma tracks_push:
  assumes "tracks d h"
  shows "\<exists>d'. push x d = Inr d' \<and> tracks d' (h @ [x])"
proof -
  from assms have wf: "wf d" by (simp add: tracks_def)
  consider (first) "elems d = []"
    | (filling) "elems d \<noteq> []" "length (elems d) < unat (m_maxsize d)"
    | (full) "elems d \<noteq> []" "length (elems d) = unat (m_maxsize d)"
    using wf by (fastforce simp add: wf_def)
  then show ?thesis
  proof cases
    case first
    with wf have eq: "push x d = Inr (d\<lparr>elems := [x], m_pos := 1, m_maxpos := 0\<rparr>)"
      by (intro push_first) (simp_all add: wf_def)
    from first assms wf have "h = []" by (auto simp add: tracks_def wf_def min_def split: if_splits)
    with wf first have "tracks (d\<lparr>elems := [x], m_pos := 1, m_maxpos := 0\<rparr>) (h @ [x])"
      by (simp add: tracks_def wf_def dominates_single last_n_short)
    with eq show ?thesis by simp
  next
    case filling
    let ?mp = "if Real_less (elems d ! m_maxpos d) x then length (elems d) else m_maxpos d"
    let ?d' = "d\<lparr>elems := elems d @ [x], m_pos := length (elems d) + 1, m_maxpos := ?mp\<rparr>"
    from filling wf have mp: "m_maxpos d < length (elems d)" by (simp add: wf_def)
    with filling have eq: "push x d = Inr ?d'" by (intro push_filling)
    from filling assms have len: "length h = length (elems d)"
      by (simp add: tracks_def min_def split: if_splits)
    from assms have "length (elems d) < unat (m_maxsize d) \<longrightarrow> m_pos d = length (elems d)"
      and win: "drop (m_pos d) (elems d) @ take (m_pos d) (elems d) = last_n (unat (m_maxsize d)) h"
      by (simp_all add: tracks_def)
    with filling have "m_pos d = length (elems d)" by simp
    with win have "elems d = last_n (unat (m_maxsize d)) h" by simp
    also from filling len have "\<dots> = h" by (simp add: last_n_short)
    finally have "elems d = h" .
    moreover from assms mp have "dominates (elems d @ [x]) ?mp"
      by (intro dominates_snoc) (simp_all add: tracks_def)
    ultimately have "tracks ?d' (h @ [x])"
      using wf filling mp by (simp add: tracks_def wf_def last_n_short)
    with eq show ?thesis by blast
  next
    case full
    define p where "p = (if m_pos d = length (elems d) then 0 else m_pos d)"
    let ?v = "(elems d)[p := x]"
    let ?mp = "if m_maxpos d = p then max_element ?v
               else if Real_less (elems d ! m_maxpos d) x then p else m_maxpos d"
    let ?d' = "d\<lparr>elems := ?v, m_pos := p + 1, m_maxpos := ?mp\<rparr>"
    from full wf have p: "p < length (elems d)" by (auto simp add: p_def wf_def)
    from full wf have mp: "m_maxpos d < length (elems d)" by (simp add: wf_def)
    from full wf p_def have eq: "push x d = Inr ?d'"
      by (intro push_full) (simp_all add: wf_def)
    have lt: "max_element ?v < length (elems d)"
      using max_element_less [of ?v] full by simp
    from full assms have len: "unat (m_maxsize d) \<le> length h"
      by (simp add: tracks_def min_def split: if_splits)
    have "drop p (elems d) @ take p (elems d) = drop (m_pos d) (elems d) @ take (m_pos d) (elems d)"
      by (simp add: p_def)
    with assms have "drop p (elems d) @ take p (elems d) = last_n (unat (m_maxsize d)) h"
      by (simp add: tracks_def)
    with p have win: "drop (Suc p) ?v @ take (Suc p) ?v = last_n (unat (m_maxsize d)) (h @ [x])"
      using wf len by (simp only: rotate_write) (simp add: last_n_snoc wf_def)
    have dom: "dominates ?v ?mp"
    proof (cases "m_maxpos d = p")
      case True
      then show ?thesis by (simp add: max_element_dominates)
    next
      case False
      from assms have "dominates (elems d) (m_maxpos d)" by (simp add: tracks_def)
      then have "dominates ?v (if Real_less (elems d ! m_maxpos d) x then p else m_maxpos d)"
        using mp p False by (intro dominates_update) simp_all
      with False show ?thesis by simp
    qed
    have "tracks ?d' (h @ [x])"
      using wf full p mp lt len win dom by (simp add: tracks_def wf_def)
    with eq show ?thesis by blast
  qed
qed

subsection \<open>The constructor\<close>

lemma ctor_small:
  assumes "Diffs_ctor max_size maxsize def = Inr d0"
  shows "d0 = \<lparr>elems = [], m_maxsize = word_of_int (sint maxsize), m_def = def, m_pos = 0, m_maxpos = 0\<rparr>"
  using assms by (auto simp only: Diffs_ctor_def Let_def split: if_splits)

lemma ctor_positive:
  assumes "Diffs_ctor max_size maxsize def = Inr d0" and "1 \<le> sint maxsize"
  shows "d0 = \<lparr>elems = [], m_maxsize = word_of_int (sint maxsize), m_def = def, m_pos = 0, m_maxpos = 0\<rparr>"
    and "unat (m_maxsize d0) = nat (sint maxsize)"
proof -
  from assms(1) show d0: "d0 = \<lparr>elems = [], m_maxsize = word_of_int (sint maxsize), m_def = def, m_pos = 0, m_maxpos = 0\<rparr>"
    by (auto simp only: Diffs_ctor_def Let_def split: if_splits)
  have "unat (m_maxsize d0) = unat (word_of_int (sint maxsize) :: size_t)"
    by (simp only: d0 Diffs.simps)
  with assms(2) show "unat (m_maxsize d0) = nat (sint maxsize)"
    by (simp only: size_t_of_long_pos)
qed

lemma tracks_ctor:
  assumes "Diffs_ctor max_size maxsize def = Inr d0" and "1 \<le> sint maxsize"
  shows "tracks d0 []"
proof -
  from assms have "elems d0 = []" "m_pos d0 = 0" "unat (m_maxsize d0) = nat (sint maxsize)"
    using ctor_positive [OF assms] by simp_all
  with assms(2) show ?thesis
    by (simp add: tracks_def wf_def last_n_def dominates_def)
qed

subsection \<open>Sequences of calls\<close>

lemma wf_maxDiff: "wf d \<Longrightarrow> \<exists>m. maxDiff d = Inr (m, d)"
  by (auto simp add: wf_def maxDiff_def deref_def)

lemma wf_run: "wf d \<Longrightarrow> \<exists>outs d'. run d cs = Inr (outs, d') \<and> wf d'"
proof (induction cs arbitrary: d)
  case Nil
  then show ?case by simp
next
  case (Cons c cs)
  show ?case
  proof (cases c)
    case (Push x)
    from Cons.prems obtain d1 where "push x d = Inr d1" and "wf d1"
      using wf_push by blast
    with Cons.IH [of d1] Push show ?thesis by simp
  next
    case MaxDiff
    from Cons.prems obtain m where "maxDiff d = Inr (m, d)"
      using wf_maxDiff by blast
    with Cons.IH [OF Cons.prems] MaxDiff show ?thesis by auto
  qed
qed

lemma maxDiff_same: "maxDiff d = Inr (v, d') \<Longrightarrow> d' = d"
  by (auto simp add: maxDiff_def split: if_splits sum.splits)

lemma push_frame: "push x d = Inr d' \<Longrightarrow> m_maxsize d' = m_maxsize d \<and> m_def d' = m_def d"
  by (auto simp add: push_def Let_def split: if_splits sum.splits)

lemma run_frame: "run d cs = Inr (outs, d') \<Longrightarrow> m_maxsize d' = m_maxsize d \<and> m_def d' = m_def d"
proof (induction cs arbitrary: d outs)
  case Nil
  then show ?case by simp
next
  case (Cons c cs)
  show ?case
  proof (cases c)
    case (Push x)
    with Cons.prems obtain d1 where p: "push x d = Inr d1" and r: "run d1 cs = Inr (outs, d')"
      by (auto split: sum.splits)
    from Cons.IH [OF r] push_frame [OF p] show ?thesis by simp
  next
    case MaxDiff
    with Cons.prems obtain m d1 ms where p: "maxDiff d = Inr (m, d1)" and r: "run d1 cs = Inr (ms, d')"
      by (auto split: sum.splits)
    from Cons.IH [OF r] maxDiff_same [OF p] show ?thesis by simp
  qed
qed

lemma run_maxDiffs: "maxDiff d = Inr (v, d) \<Longrightarrow> run d (replicate n MaxDiff) = Inr (replicate n v, d)"
  by (induction n) simp_all

subsection \<open>What the object holds after a sequence of pushes\<close>

lemma tracksD:
  assumes "tracks d h"
  shows "wf d" and "length (elems d) = min (length h) (unat (m_maxsize d))"
    and "length (elems d) < unat (m_maxsize d) \<longrightarrow> m_pos d = length (elems d)"
    and "drop (m_pos d) (elems d) @ take (m_pos d) (elems d) = last_n (unat (m_maxsize d)) h"
    and "dominates (elems d) (m_maxpos d)"
  using assms by (simp_all add: tracks_def)

lemma tracks_pushes: "tracks d h \<Longrightarrow> \<exists>d'. pushes d xs = Inr d' \<and> tracks d' (h @ xs)"
proof (induction xs arbitrary: d h)
  case Nil
  then show ?case by simp
next
  case (Cons x xs)
  from Cons.prems obtain d1 where p: "push x d = Inr d1" and t: "tracks d1 (h @ [x])"
    using tracks_push by blast
  from Cons.IH [OF t] p show ?case by simp
qed

lemma pushes_frame: "pushes d xs = Inr d' \<Longrightarrow> m_maxsize d' = m_maxsize d \<and> m_def d' = m_def d"
proof (induction xs arbitrary: d)
  case Nil
  then show ?case by simp
next
  case (Cons x xs)
  from Cons.prems obtain d1 where p: "push x d = Inr d1" and r: "pushes d1 xs = Inr d'"
    by (auto split: sum.splits)
  from Cons.IH [OF r] push_frame [OF p] show ?case by simp
qed

lemma ctor_pushes:
  assumes "Diffs_ctor max_size maxsize def = Inr d0" and "1 \<le> sint maxsize"
  shows "\<exists>d. pushes d0 xs = Inr d \<and> tracks d xs \<and> unat (m_maxsize d) = nat (sint maxsize)
           \<and> m_def d = def"
proof -
  from assms have "tracks d0 []" by (rule tracks_ctor)
  then obtain d where p: "pushes d0 xs = Inr d" and t: "tracks d ([] @ xs)"
    using tracks_pushes by blast
  from pushes_frame [OF p] ctor_positive [OF assms] p t show ?thesis by simp
qed

lemma tracks_window_set:
  assumes "tracks d h"
  shows "set (elems d) = set (last_n (unat (m_maxsize d)) h)"
proof -
  have "set (elems d) = set (take (m_pos d) (elems d) @ drop (m_pos d) (elems d))"
    by (simp only: append_take_drop_id)
  also have "\<dots> = set (drop (m_pos d) (elems d) @ take (m_pos d) (elems d))"
    by (simp only: set_append Un_commute)
  also from assms have "\<dots> = set (last_n (unat (m_maxsize d)) h)"
    by (simp only: tracks_def)
  finally show ?thesis .
qed

lemma set_last_n: "set (last_n n h) \<subseteq> set h"
  by (simp add: last_n_def set_drop_subset)

lemma tracks_elems_subset:
  assumes "tracks d h"
  shows "set (elems d) \<subseteq> set h"
  using tracks_window_set [OF assms] set_last_n [of "unat (m_maxsize d)" h] by simp

lemma tracks_filling_elems:
  assumes "tracks d h" and "length h < unat (m_maxsize d)"
  shows "elems d = h"
proof -
  from assms have len: "length (elems d) < unat (m_maxsize d)" by (simp add: tracks_def)
  from assms(1) have "length (elems d) < unat (m_maxsize d) \<longrightarrow> m_pos d = length (elems d)"
    and win: "drop (m_pos d) (elems d) @ take (m_pos d) (elems d) = last_n (unat (m_maxsize d)) h"
    by (simp_all add: tracks_def)
  with len have "m_pos d = length (elems d)" by simp
  with win have "elems d = last_n (unat (m_maxsize d)) h" by simp
  also from assms(2) have "\<dots> = h" by (simp add: last_n_short)
  finally show ?thesis .
qed

lemma tracks_filling_maxDiff:
  assumes "tracks d h" and "length h < unat (m_maxsize d)"
  shows "maxDiff d = Inr (m_def d, d)"
proof -
  from assms have "length (elems d) < unat (m_maxsize d)" by (simp add: tracks_def)
  then show ?thesis by (simp add: maxDiff_def)
qed

lemma tracks_full_maxDiff:
  assumes "tracks d h" and "unat (m_maxsize d) \<le> length h"
  shows "maxDiff d = Inr (elems d ! m_maxpos d, d)" and "m_maxpos d < length (elems d)"
    and "length (elems d) = unat (m_maxsize d)"
proof -
  from assms show len: "length (elems d) = unat (m_maxsize d)" by (simp add: tracks_def)
  from assms have "wf d" by (simp add: tracks_def)
  with len show mp: "m_maxpos d < length (elems d)" by (auto simp add: wf_def)
  with len show "maxDiff d = Inr (elems d ! m_maxpos d, d)" by (simp add: maxDiff_def deref_def)
qed


subsection \<open>The slot under \<open>_maxpos\<close>\<close>

lemma is_maximum_set: "set v = set w \<Longrightarrow> is_maximum m v = is_maximum m w"
  by (simp add: is_maximum_def list_all_iff)

lemma dominates_is_maximum:
  assumes "dominates v i" and "i < length v" and "v ! i \<noteq> NaN"
  shows "is_maximum (v ! i) v"
proof -
  have "\<not> ranks_above y (v ! i)" if "y \<in> set v" for y
  proof -
    from that obtain j where "j < length v" and "y = v ! j"
      by (auto simp add: in_set_conv_nth)
    with assms show ?thesis by (simp add: ranks_above_def dominates_def)
  qed
  with assms(2) show ?thesis by (simp add: is_maximum_def list_all_iff)
qed

lemma tracks_full_maximum:
  assumes "tracks d h" and "unat (m_maxsize d) \<le> length h" and "NaN \<notin> set h"
  shows "\<exists>m. maxDiff d = Inr (m, d) \<and> is_maximum m (last_n (unat (m_maxsize d)) h)"
proof -
  note full = tracks_full_maxDiff [OF assms(1,2)]
  from assms(1) have win: "set (elems d) = set (last_n (unat (m_maxsize d)) h)"
    by (rule tracks_window_set)
  from full(2) have "elems d ! m_maxpos d \<in> set (elems d)" by simp
  with win set_last_n [of "unat (m_maxsize d)" h] assms(3)
  have "elems d ! m_maxpos d \<noteq> NaN" by auto
  moreover from assms(1) have "dominates (elems d) (m_maxpos d)" by (simp add: tracks_def)
  ultimately have "is_maximum (elems d ! m_maxpos d) (elems d)"
    using full(2) by (intro dominates_is_maximum)
  with win have "is_maximum (elems d ! m_maxpos d) (last_n (unat (m_maxsize d)) h)"
    using is_maximum_set by blast
  with full(1) show ?thesis by blast
qed

subsection \<open>Where a NaN can be selected\<close>

lemma max_element_loop_cases:
  "max_element_loop ys largest lv first = largest
   \<or> (\<exists>k<length ys. max_element_loop ys largest lv first = first + k \<and> ys ! k \<noteq> NaN)"
proof (induction ys arbitrary: largest lv first)
  case Nil
  then show ?case by simp
next
  case (Cons y ys)
  show ?case
  proof (cases "Real_less lv y")
    case True
    then have y: "y \<noteq> NaN" using Real_less_not_NaN by blast
    from Cons.IH [of first y "first + 1"]
    consider "max_element_loop ys first y (first + 1) = first"
      | k where "k < length ys" "max_element_loop ys first y (first + 1) = first + 1 + k" "ys ! k \<noteq> NaN"
      by blast
    then show ?thesis
    proof cases
      case 1
      with True y have "max_element_loop (y # ys) largest lv first = first + 0 \<and> (y # ys) ! 0 \<noteq> NaN"
        by simp
      then show ?thesis by blast
    next
      case 2
      with True have "Suc k < length (y # ys)
        \<and> max_element_loop (y # ys) largest lv first = first + Suc k \<and> (y # ys) ! Suc k \<noteq> NaN"
        by simp
      then show ?thesis by blast
    qed
  next
    case False
    from Cons.IH [of largest lv "first + 1"]
    consider "max_element_loop ys largest lv (first + 1) = largest"
      | k where "k < length ys" "max_element_loop ys largest lv (first + 1) = first + 1 + k" "ys ! k \<noteq> NaN"
      by blast
    then show ?thesis
    proof cases
      case 1
      with False show ?thesis by simp
    next
      case 2
      with False have "Suc k < length (y # ys)
        \<and> max_element_loop (y # ys) largest lv first = first + Suc k \<and> (y # ys) ! Suc k \<noteq> NaN"
        by simp
      then show ?thesis by blast
    qed
  qed
qed

lemma max_element_nan: "v ! max_element v \<noteq> NaN \<or> max_element v = 0"
proof (cases v)
  case Nil
  then show ?thesis by (simp add: max_element_def)
next
  case (Cons x xs)
  from max_element_loop_cases [of xs 0 x 1]
  consider "max_element_loop xs 0 x 1 = 0"
    | k where "k < length xs" "max_element_loop xs 0 x 1 = 1 + k" "xs ! k \<noteq> NaN"
    by auto
  then show ?thesis
  proof cases
    case 1
    with Cons show ?thesis by (simp add: max_element_def)
  next
    case 2
    with Cons show ?thesis by (simp add: max_element_def)
  qed
qed

lemma nan_front_push:
  assumes "wf d" and "nan_front d" and "push x d = Inr d'"
  shows "nan_front d'"
proof -
  consider (first) "elems d = []"
    | (filling) "elems d \<noteq> []" "length (elems d) < unat (m_maxsize d)"
    | (full) "elems d \<noteq> []" "length (elems d) = unat (m_maxsize d)"
    using assms(1) by (fastforce simp add: wf_def)
  then show ?thesis
  proof cases
    case first
    with assms(1) have "push x d = Inr (d\<lparr>elems := [x], m_pos := 1, m_maxpos := 0\<rparr>)"
      by (intro push_first) (simp_all add: wf_def)
    with assms(3) show ?thesis by (auto simp add: nan_front_def)
  next
    case filling
    from filling assms(1) have mp: "m_maxpos d < length (elems d)" by (simp add: wf_def)
    with filling have "push x d = Inr (d\<lparr>elems := elems d @ [x], m_pos := length (elems d) + 1,
           m_maxpos := (if Real_less (elems d ! m_maxpos d) x then length (elems d) else m_maxpos d)\<rparr>)"
      by (intro push_filling)
    with assms(3) have d': "d' = d\<lparr>elems := elems d @ [x], m_pos := length (elems d) + 1,
           m_maxpos := (if Real_less (elems d ! m_maxpos d) x then length (elems d) else m_maxpos d)\<rparr>"
      by simp
    show ?thesis
    proof (cases "Real_less (elems d ! m_maxpos d) x")
      case True
      then have "x \<noteq> NaN" using Real_less_not_NaN by blast
      with True d' show ?thesis by (simp add: nan_front_def)
    next
      case False
      with d' mp assms(2) filling show ?thesis by (simp add: nan_front_def nth_append)
    qed
  next
    case full
    define p where "p = (if m_pos d = length (elems d) then 0 else m_pos d)"
    from full assms(1) have p: "p < length (elems d)" by (auto simp add: p_def wf_def)
    from full assms(1) have mp: "m_maxpos d < length (elems d)" by (simp add: wf_def)
    from full assms(1) p_def
    have "push x d = Inr (d\<lparr>elems := (elems d)[p := x], m_pos := p + 1,
           m_maxpos := (if m_maxpos d = p then max_element ((elems d)[p := x])
                        else if Real_less (elems d ! m_maxpos d) x then p else m_maxpos d)\<rparr>)"
      by (intro push_full) (simp_all add: wf_def)
    with assms(3) have d': "d' = d\<lparr>elems := (elems d)[p := x], m_pos := p + 1,
           m_maxpos := (if m_maxpos d = p then max_element ((elems d)[p := x])
                        else if Real_less (elems d ! m_maxpos d) x then p else m_maxpos d)\<rparr>"
      by simp
    show ?thesis
    proof (cases "m_maxpos d = p")
      case True
      with d' max_element_nan [of "(elems d)[p := x]"] show ?thesis
        by (auto simp add: nan_front_def)
    next
      case neq: False
      show ?thesis
      proof (cases "Real_less (elems d ! m_maxpos d) x")
        case True
        then have "x \<noteq> NaN" using Real_less_not_NaN by blast
        with True d' neq p show ?thesis by (simp add: nan_front_def)
      next
        case False
        with d' neq mp assms(2) full show ?thesis by (simp add: nan_front_def)
      qed
    qed
  qed
qed

lemma nan_front_pushes:
  assumes "wf d" and "nan_front d" and "pushes d xs = Inr d'"
  shows "nan_front d'"
  using assms
proof (induction xs arbitrary: d)
  case Nil
  then show ?case by simp
next
  case (Cons x xs)
  from Cons.prems(3) obtain d1 where p: "push x d = Inr d1" and r: "pushes d1 xs = Inr d'"
    by (auto split: sum.splits)
  from wf_push [OF Cons.prems(1), of x] p have "wf d1" by simp
  moreover from Cons.prems(1,2) p have "nan_front d1" by (rule nan_front_push)
  ultimately show ?case using r by (rule Cons.IH)
qed

subsection \<open>While the window fills\<close>

lemma is_maximum_iff:
  assumes "dominates v i" and "i < length v"
  shows "is_maximum (v ! i) v = (v ! i \<noteq> NaN \<or> list_all (\<lambda>y. y = NaN) v)"
proof (cases "v ! i = NaN")
  case True
  from assms(2) have "v ! i \<in> set v" by simp
  with True have "NaN \<in> set v" by simp
  with True show ?thesis by (simp add: is_maximum_def ranks_above_def)
next
  case False
  with assms have "is_maximum (v ! i) v" by (intro dominates_is_maximum)
  with False show ?thesis by simp
qed

lemma earliest_snoc:
  assumes "earliest v mp" and "dominates v mp" and "mp < length v"
  shows "earliest (v @ [x]) (if Real_less (v ! mp) x then length v else mp)"
proof (cases "Real_less (v ! mp) x")
  case True
  then have nn: "v ! mp \<noteq> NaN" "x \<noteq> NaN" using Real_less_not_NaN by blast+
  have "ranks_above x (v ! j)" if "j < length v" for j
  proof (cases "v ! j = NaN")
    case True
    with nn show ?thesis by (simp add: ranks_above_def)
  next
    case False
    from that assms(2) have "\<not> Real_less (v ! mp) (v ! j)" by (simp add: dominates_def)
    with False nn have "Real_less (v ! j) (v ! mp) \<or> v ! j = v ! mp"
      using Real_less_total by blast
    with True have "Real_less (v ! j) x" by (auto intro: Real_less_trans)
    with nn show ?thesis by (simp add: ranks_above_def)
  qed
  with True show ?thesis by (simp add: earliest_def nth_append)
next
  case False
  with assms(1,3) show ?thesis by (simp add: earliest_def nth_append)
qed

lemma fills_ctor:
  assumes "Diffs_ctor max_size maxsize def = Inr d0"
  shows "fills d0 []"
  using ctor_small [OF assms] by (simp add: fills_def earliest_def)

lemma fill_push:
  assumes "tracks d h" and "fills d h" and "length h < unat (m_maxsize d)"
    and "push x d = Inr d'"
  shows "fills d' (h @ [x])"
proof (cases "h = []")
  case True
  from assms(2) have el: "elems d = h" by (simp add: fills_def)
  from tracksD(1) [OF assms(1)] True el
  have "push x d = Inr (d\<lparr>elems := [x], m_pos := 1, m_maxpos := 0\<rparr>)"
    by (intro push_first) (simp_all add: wf_def)
  with assms(4) True show ?thesis by (auto simp add: fills_def earliest_def)
next
  case False
  from assms(2) have el: "elems d = h" and ea: "earliest h (m_maxpos d)"
    and fr: "h ! 0 \<noteq> NaN \<or> m_maxpos d = 0"
    using False by (simp_all add: fills_def)
  from tracksD(1) [OF assms(1)] False el have mp: "m_maxpos d < length h"
    by (simp add: wf_def)
  from tracksD(5) [OF assms(1)] el have dom: "dominates h (m_maxpos d)" by simp
  let ?mp = "if Real_less (h ! m_maxpos d) x then length h else m_maxpos d"
  from False el assms(3) mp
  have "push x d = Inr (d\<lparr>elems := elems d @ [x], m_pos := length (elems d) + 1,
           m_maxpos := (if Real_less (elems d ! m_maxpos d) x then length (elems d) else m_maxpos d)\<rparr>)"
    by (intro push_filling) simp_all
  with assms(4) el have d': "elems d' = h @ [x]" "m_maxpos d' = ?mp" by auto
  from ea dom mp have "earliest (h @ [x]) ?mp" by (rule earliest_snoc)
  moreover have "(h @ [x]) ! 0 \<noteq> NaN \<or> ?mp = 0"
  proof (cases "h ! 0 = NaN")
    case True
    with fr have "m_maxpos d = 0" by simp
    with True show ?thesis by simp
  next
    case nn: False
    with False show ?thesis by (simp add: nth_append)
  qed
  ultimately show ?thesis using d' by (simp add: fills_def)
qed

lemma fill_pushes:
  assumes "tracks d h" and "fills d h" and "length h + length xs \<le> unat (m_maxsize d)"
    and "pushes d xs = Inr d'"
  shows "fills d' (h @ xs)"
  using assms
proof (induction xs arbitrary: d h)
  case Nil
  then show ?case by simp
next
  case (Cons x xs)
  from Cons.prems(4) obtain d1 where p: "push x d = Inr d1" and r: "pushes d1 xs = Inr d'"
    by (auto split: sum.splits)
  from tracks_push [OF Cons.prems(1), of x] p have t1: "tracks d1 (h @ [x])" by simp
  from Cons.prems(3) have "length h < unat (m_maxsize d)" by simp
  with Cons.prems(1,2) have f1: "fills d1 (h @ [x])"
    using p by (rule fill_push)
  from push_frame [OF p] Cons.prems(3)
  have l1: "length (h @ [x]) + length xs \<le> unat (m_maxsize d1)" by simp
  from Cons.IH [OF t1 f1 l1 r] show ?case by simp
qed

lemma ctor_fill:
  assumes "Diffs_ctor max_size maxsize def = Inr d0" and "1 \<le> sint maxsize"
    and "length xs \<le> nat (sint maxsize)" and "pushes d0 xs = Inr d"
  shows "fills d xs"
proof -
  from assms(1,2) have t0: "tracks d0 []" by (rule tracks_ctor)
  from assms(1) have f0: "fills d0 []" by (rule fills_ctor)
  from ctor_positive(2) [OF assms(1,2)] assms(3)
  have "length ([]::Real list) + length xs \<le> unat (m_maxsize d0)" by simp
  from fill_pushes [OF t0 f0 this assms(4)] show ?thesis by simp
qed

lemma ctor_nan_front:
  assumes "Diffs_ctor max_size maxsize def = Inr d0" and "1 \<le> sint maxsize"
    and "pushes d0 xs = Inr d"
  shows "nan_front d"
proof -
  from assms(1,2) have "tracks d0 []" by (rule tracks_ctor)
  then have "wf d0" and "nan_front d0" by (simp_all add: tracks_def nan_front_def wf_def)
  then show ?thesis using assms(3) by (rule nan_front_pushes)
qed


section \<open>The claims\<close>

text \<open>
  Claim C1.  On an object constructed with a capacity of at least \<open>1\<close>, after any sequence
  of more than capacity pushes without NaN, \<open>maxDiff()\<close> returns the maximum of the last
  capacity pushed values.  (Every prefix longer than the capacity is such a sequence, so
  this holds after every push beyond the capacity-th.)
\<close>

theorem C1_sliding_window_maximum:
  assumes "Diffs_ctor max_size maxsize def = Inr d0" and "1 \<le> sint maxsize"
    and "NaN \<notin> set xs" and "nat (sint maxsize) < length xs"
  shows "\<exists>d m. pushes d0 xs = Inr d \<and> maxDiff d = Inr (m, d)
           \<and> is_maximum m (last_n (nat (sint maxsize)) xs)"
proof -
  from ctor_pushes [OF assms(1,2)] obtain d
    where p: "pushes d0 xs = Inr d" and t: "tracks d xs"
      and c: "unat (m_maxsize d) = nat (sint maxsize)"
    by blast
  from assms(4) c have "unat (m_maxsize d) \<le> length xs" by simp
  from tracks_full_maximum [OF t this assms(3)] p c show ?thesis by auto
qed

text \<open>
  Claim C1 at capacity \<open>2\<close> on the pushes \<open>3, 1, 2\<close>.
\<close>

theorem C1_sliding_window_maximum_witness:
  "Diffs_ctor (2 ^ 60 - 1) 2 (Fin 0)
     = Inr \<lparr>elems = [], m_maxsize = 2, m_def = Fin 0, m_pos = 0, m_maxpos = 0\<rparr>
   \<and> 1 \<le> sint (2 :: long)
   \<and> NaN \<notin> set [Fin 3, Fin 1, Fin 2]
   \<and> nat (sint (2 :: long)) < length [Fin 3, Fin 1, Fin 2]
   \<and> (\<exists>d m. pushes \<lparr>elems = [], m_maxsize = 2, m_def = Fin 0, m_pos = 0, m_maxpos = 0\<rparr>
               [Fin 3, Fin 1, Fin 2] = Inr d
         \<and> maxDiff d = Inr (m, d)
         \<and> is_maximum m (last_n (nat (sint (2 :: long))) [Fin 3, Fin 1, Fin 2]))"
proof -
  have c: "Diffs_ctor (2 ^ 60 - 1) 2 (Fin 0)
     = Inr \<lparr>elems = [], m_maxsize = 2, m_def = Fin 0, m_pos = 0, m_maxpos = 0\<rparr>"
    by (simp add: Diffs_ctor_def)
  have p: "1 \<le> sint (2 :: long)" by simp
  have n: "NaN \<notin> set [Fin 3, Fin 1, Fin 2]" by simp
  have l: "nat (sint (2 :: long)) < length [Fin 3, Fin 1, Fin 2]" by simp
  from C1_sliding_window_maximum [OF c p n l] c p n l show ?thesis by blast
qed

text \<open>
  Claim C2, as amended.  On an object constructed with a capacity of at least \<open>1\<close> and a
  default \<open>def\<close>: \<open>maxDiff()\<close> returns \<open>def\<close> on the fresh object and after every sequence of
  fewer than capacity pushes, whatever the pushed values; after exactly capacity pushes it
  returns the maximum of those pushed values, unless the first pushed value is a NaN and
  some other pushed value is not (then, and only then, the returned value is not their
  maximum).
\<close>

theorem C2_fill_then_maximum:
  assumes "Diffs_ctor max_size maxsize def = Inr d0" and "1 \<le> sint maxsize"
  shows "maxDiff d0 = Inr (def, d0)
    \<and> (length xs < nat (sint maxsize) \<longrightarrow>
         (\<exists>d. pushes d0 xs = Inr d \<and> maxDiff d = Inr (def, d)))
    \<and> (length xs = nat (sint maxsize) \<longrightarrow>
         (\<exists>d m. pushes d0 xs = Inr d \<and> maxDiff d = Inr (m, d)
            \<and> is_maximum m xs = (hd xs \<noteq> NaN \<or> list_all (\<lambda>y. y = NaN) xs)))"
proof (intro conjI impI)
  from ctor_pushes [OF assms, of "[]"] show "maxDiff d0 = Inr (def, d0)"
    using tracks_filling_maxDiff [of d0 "[]"] assms(2) by auto
next
  assume short: "length xs < nat (sint maxsize)"
  from ctor_pushes [OF assms] obtain d
    where p: "pushes d0 xs = Inr d" and t: "tracks d xs"
      and c: "unat (m_maxsize d) = nat (sint maxsize)" and f: "m_def d = def"
    by blast
  from short c have "length xs < unat (m_maxsize d)" by simp
  from tracks_filling_maxDiff [OF t this] p f
  show "\<exists>d. pushes d0 xs = Inr d \<and> maxDiff d = Inr (def, d)" by auto
next
  assume full: "length xs = nat (sint maxsize)"
  from ctor_pushes [OF assms] obtain d
    where p: "pushes d0 xs = Inr d" and t: "tracks d xs"
      and c: "unat (m_maxsize d) = nat (sint maxsize)"
    by blast
  from full c have le: "unat (m_maxsize d) \<le> length xs" by simp
  note md = tracks_full_maxDiff [OF t le]
  from full have "length xs \<le> nat (sint maxsize)" by simp
  from ctor_fill [OF assms this p]
  have el: "elems d = xs" and fr: "xs = [] \<or> xs ! 0 \<noteq> NaN \<or> m_maxpos d = 0"
    by (simp_all add: fills_def)
  from full assms(2) have ne: "xs \<noteq> []" by auto
  then have hd: "hd xs = xs ! 0" by (simp add: hd_conv_nth)
  from ctor_nan_front [OF assms p] ne el
  have nf: "xs ! m_maxpos d \<noteq> NaN \<or> m_maxpos d = 0" by (simp add: nan_front_def)
  from fr nf ne hd have same: "(xs ! m_maxpos d \<noteq> NaN) = (hd xs \<noteq> NaN)" by auto
  from tracksD(5) [OF t] md(2) el
  have "is_maximum (xs ! m_maxpos d) xs
          = (xs ! m_maxpos d \<noteq> NaN \<or> list_all (\<lambda>y. y = NaN) xs)"
    by (intro is_maximum_iff) simp_all
  with same have "is_maximum (xs ! m_maxpos d) xs
          = (hd xs \<noteq> NaN \<or> list_all (\<lambda>y. y = NaN) xs)"
    by simp
  with md(1) el p
  show "\<exists>d m. pushes d0 xs = Inr d \<and> maxDiff d = Inr (m, d)
            \<and> is_maximum m xs = (hd xs \<noteq> NaN \<or> list_all (\<lambda>y. y = NaN) xs)"
    by auto
qed

text \<open>
  The amended claim C2 at capacity \<open>2\<close>: after the single push \<open>7\<close>, and after the pushes
  \<open>5, NaN\<close>, where the NaN is not the first value and the maximum \<open>5\<close> is returned.
\<close>

theorem C2_fill_then_maximum_witness:
  "Diffs_ctor (2 ^ 60 - 1) 2 (Fin 0)
     = Inr \<lparr>elems = [], m_maxsize = 2, m_def = Fin 0, m_pos = 0, m_maxpos = 0\<rparr>
   \<and> 1 \<le> sint (2 :: long)
   \<and> length [Fin 7] < nat (sint (2 :: long))
   \<and> (\<exists>d. pushes \<lparr>elems = [], m_maxsize = 2, m_def = Fin 0, m_pos = 0, m_maxpos = 0\<rparr> [Fin 7]
              = Inr d \<and> maxDiff d = Inr (Fin 0, d))
   \<and> length [Fin 5, NaN] = nat (sint (2 :: long))
   \<and> (\<exists>d m. pushes \<lparr>elems = [], m_maxsize = 2, m_def = Fin 0, m_pos = 0, m_maxpos = 0\<rparr>
                [Fin 5, NaN] = Inr d
          \<and> maxDiff d = Inr (m, d) \<and> is_maximum m [Fin 5, NaN])"
proof -
  have c: "Diffs_ctor (2 ^ 60 - 1) 2 (Fin 0)
     = Inr \<lparr>elems = [], m_maxsize = 2, m_def = Fin 0, m_pos = 0, m_maxpos = 0\<rparr>"
    by (simp add: Diffs_ctor_def)
  have p: "1 \<le> sint (2 :: long)" by simp
  have s: "length [Fin 7] < nat (sint (2 :: long))" by simp
  have f: "length [Fin 5, NaN] = nat (sint (2 :: long))" by simp
  from C2_fill_then_maximum [OF c p, of "[Fin 7]"] s
  have 1: "\<exists>d. pushes \<lparr>elems = [], m_maxsize = 2, m_def = Fin 0, m_pos = 0, m_maxpos = 0\<rparr> [Fin 7]
              = Inr d \<and> maxDiff d = Inr (Fin 0, d)" by blast
  from C2_fill_then_maximum [OF c p, of "[Fin 5, NaN]"] f
  have "\<exists>d m. pushes \<lparr>elems = [], m_maxsize = 2, m_def = Fin 0, m_pos = 0, m_maxpos = 0\<rparr>
                [Fin 5, NaN] = Inr d
          \<and> maxDiff d = Inr (m, d)
          \<and> is_maximum m [Fin 5, NaN] = (hd [Fin 5, NaN] \<noteq> NaN \<or> list_all (\<lambda>y. y = NaN) [Fin 5, NaN])"
    by blast
  then have 2: "\<exists>d m. pushes \<lparr>elems = [], m_maxsize = 2, m_def = Fin 0, m_pos = 0, m_maxpos = 0\<rparr>
                [Fin 5, NaN] = Inr d
          \<and> maxDiff d = Inr (m, d) \<and> is_maximum m [Fin 5, NaN]"
    by simp
  from c p s f 1 2 show ?thesis by blast
qed

text \<open>
  Claim C2 as stated fails when a NaN is pushed first: with capacity \<open>2\<close> and the pushes
  \<open>NaN, 5\<close> the second answer of \<open>maxDiff()\<close> is NaN, which is not the maximum of the two
  pushed values (that is \<open>5\<close>).
\<close>

theorem C2_counterexample:
  "maxDiff_trace (2 ^ 60 - 1) 2 (Fin (- 1)) [NaN, Fin 5] = Inr [Fin (- 1), NaN]
   \<and> \<not> is_maximum NaN [NaN, Fin 5] \<and> is_maximum (Fin 5) [NaN, Fin 5]"
  by (simp add: maxDiff_trace_def Diffs_ctor_def maxDiff_def push_def deref_def assign_def
      is_maximum_def ranks_above_def)




text \<open>
  Claim C4, as amended.  The constructor checks nothing.  With capacity \<open>0\<close> it completes
  and yields an empty object whose \<open>_maxsize\<close> is \<open>0\<close>.  A negative capacity becomes a
  \<open>size_t\<close> of at least \<open>2^63\<close>, which exceeds \<open>max_size()\<close> of any vector of doubles, so
  \<open>reserve\<close> throws \<open>std::length_error\<close> out of the constructor and no object results.
\<close>

theorem C4_nonpositive_capacity:
  assumes "sint maxsize \<le> 0" and "max_size < 2 ^ 63"
  shows "Diffs_ctor max_size maxsize def =
     (if maxsize = 0
      then Inr \<lparr>elems = [], m_maxsize = 0, m_def = def, m_pos = 0, m_maxpos = 0\<rparr>
      else Inl Length_error)"
proof (cases "maxsize = 0")
  case True
  then show ?thesis by (simp add: Diffs_ctor_def)
next
  case False
  then have "sint maxsize \<noteq> 0" by (simp only: signed_eq_0_iff not_False_eq_True)
  with assms have "sint maxsize < 0" by simp
  then have "2 ^ 63 \<le> unat (word_of_int (sint maxsize) :: size_t)"
    by (rule size_t_of_long_neg)
  with assms have "max_size < unat (word_of_int (sint maxsize) :: size_t)" by simp
  with False show ?thesis by (simp only: Diffs_ctor_def Let_def if_True if_False)
qed

text \<open>The amended claim C4 at capacity \<open>-1\<close>, with \<open>max_size()\<close> of libstdc++ on a 64-bit target.\<close>

theorem C4_nonpositive_capacity_witness:
  "sint (- 1 :: long) \<le> 0 \<and> (2 ^ 60 - 1 :: nat) < 2 ^ 63
   \<and> Diffs_ctor (2 ^ 60 - 1) (- 1) (Fin 0) = Inl Length_error"
proof -
  have a: "sint (- 1 :: long) \<le> 0" by simp
  have b: "(2 ^ 60 - 1 :: nat) < 2 ^ 63" by simp
  from C4_nonpositive_capacity [OF a b, of "Fin 0"] a b show ?thesis by simp
qed

text \<open>
  Claim C4 as stated fails at capacity \<open>0\<close>: the construction returns an object and raises
  nothing.
\<close>

theorem C4_counterexample:
  "Diffs_ctor (2 ^ 60 - 1) 0 (Fin 0)
     = Inr \<lparr>elems = [], m_maxsize = 0, m_def = Fin 0, m_pos = 0, m_maxpos = 0\<rparr>"
  by (simp add: Diffs_ctor_def)

text \<open>
  Claim C5.  On an object constructed with a capacity of at least \<open>1\<close>, every sequence of
  \<open>push\<close> and \<open>maxDiff\<close> calls, with arbitrary arguments (NaN and the infinities included),
  runs to its end: no call reads or writes outside the vector.
\<close>

theorem C5_total:
  assumes "Diffs_ctor max_size maxsize def = Inr d0" and "1 \<le> sint maxsize"
  shows "\<exists>outs d. run d0 calls = Inr (outs, d)"
proof -
  from assms have "tracks d0 []" by (rule tracks_ctor)
  then have "wf d0" by (simp add: tracks_def)
  then show ?thesis using wf_run by blast
qed

text \<open>Claim C5 at capacity \<open>2\<close>, on a sequence of calls that fills the window and wraps.\<close>

theorem C5_total_witness:
  "Diffs_ctor (2 ^ 60 - 1) 2 (Fin 0)
     = Inr \<lparr>elems = [], m_maxsize = 2, m_def = Fin 0, m_pos = 0, m_maxpos = 0\<rparr>
   \<and> 1 \<le> sint (2 :: long)
   \<and> (\<exists>outs d. run \<lparr>elems = [], m_maxsize = 2, m_def = Fin 0, m_pos = 0, m_maxpos = 0\<rparr>
         [MaxDiff, Push NaN, Push (Fin 1), MaxDiff, Push PInf, MaxDiff] = Inr (outs, d))"
proof -
  have c: "Diffs_ctor (2 ^ 60 - 1) 2 (Fin 0)
     = Inr \<lparr>elems = [], m_maxsize = 2, m_def = Fin 0, m_pos = 0, m_maxpos = 0\<rparr>"
    by (simp add: Diffs_ctor_def)
  have p: "1 \<le> sint (2 :: long)" by simp
  from C5_total [OF c p] c p show ?thesis by blast
qed

text \<open>
  Claim C6, as amended.  With capacity \<open>3\<close> and default \<open>-1\<close>, the answers of \<open>maxDiff()\<close>
  after the pushes \<open>5, 2, 9, 1, 1\<close> are \<open>-1, -1, 9, 9, 9\<close>: after the fifth push the window
  is \<open>9, 1, 1\<close>.
\<close>

theorem C6_example_trace:
  assumes "Diffs_ctor max_size 3 (Fin (- 1)) = Inr d0"
  shows "trace d0 [Fin 5, Fin 2, Fin 9, Fin 1, Fin 1]
     = Inr [Fin (- 1), Fin (- 1), Fin 9, Fin 9, Fin 9]"
proof -
  from assms have "d0 = \<lparr>elems = [], m_maxsize = 3, m_def = Fin (- 1), m_pos = 0, m_maxpos = 0\<rparr>"
    using ctor_small [OF assms] by simp
  then show ?thesis
    by (simp add: maxDiff_def push_def deref_def assign_def Real_greater_def)
qed

text \<open>The amended claim C6 with \<open>max_size()\<close> of libstdc++ on a 64-bit target.\<close>

theorem C6_example_trace_witness:
  "Diffs_ctor (2 ^ 60 - 1) 3 (Fin (- 1))
     = Inr \<lparr>elems = [], m_maxsize = 3, m_def = Fin (- 1), m_pos = 0, m_maxpos = 0\<rparr>
   \<and> trace \<lparr>elems = [], m_maxsize = 3, m_def = Fin (- 1), m_pos = 0, m_maxpos = 0\<rparr>
         [Fin 5, Fin 2, Fin 9, Fin 1, Fin 1]
       = Inr [Fin (- 1), Fin (- 1), Fin 9, Fin 9, Fin 9]"
proof -
  have c: "Diffs_ctor (2 ^ 60 - 1) 3 (Fin (- 1))
     = Inr \<lparr>elems = [], m_maxsize = 3, m_def = Fin (- 1), m_pos = 0, m_maxpos = 0\<rparr>"
    by (simp add: Diffs_ctor_def)
  from C6_example_trace [OF c] c show ?thesis by blast
qed

text \<open>Claim C6 as stated fails: the fifth answer is not \<open>2\<close>.\<close>

theorem C6_counterexample:
  "maxDiff_trace (2 ^ 60 - 1) 3 (Fin (- 1)) [Fin 5, Fin 2, Fin 9, Fin 1, Fin 1]
     \<noteq> Inr [Fin (- 1), Fin (- 1), Fin 9, Fin 9, Fin 2]"
  by (simp add: maxDiff_trace_def Diffs_ctor_def maxDiff_def push_def deref_def assign_def
      Real_greater_def)

text \<open>
  Claim C7, as amended.  With capacity \<open>2\<close> and any default \<open>d\<close>, the answers of
  \<open>maxDiff()\<close> after the pushes \<open>4, 4, 4, 4\<close> are \<open>d, 4, 4, 4\<close>: the window is full from the
  second push on.
\<close>

theorem C7_equal_pushes_trace:
  assumes "Diffs_ctor max_size 2 def = Inr d0"
  shows "trace d0 [Fin 4, Fin 4, Fin 4, Fin 4] = Inr [def, Fin 4, Fin 4, Fin 4]"
proof -
  from assms have "d0 = \<lparr>elems = [], m_maxsize = 2, m_def = def, m_pos = 0, m_maxpos = 0\<rparr>"
    using ctor_small [OF assms] by simp
  then show ?thesis
    by (simp add: maxDiff_def push_def deref_def assign_def Real_greater_def max_element_def)
qed

text \<open>The amended claim C7 with the default \<open>+infinity\<close>.\<close>

theorem C7_equal_pushes_trace_witness:
  "Diffs_ctor (2 ^ 60 - 1) 2 PInf
     = Inr \<lparr>elems = [], m_maxsize = 2, m_def = PInf, m_pos = 0, m_maxpos = 0\<rparr>
   \<and> trace \<lparr>elems = [], m_maxsize = 2, m_def = PInf, m_pos = 0, m_maxpos = 0\<rparr>
         [Fin 4, Fin 4, Fin 4, Fin 4]
       = Inr [PInf, Fin 4, Fin 4, Fin 4]"
proof -
  have c: "Diffs_ctor (2 ^ 60 - 1) 2 PInf
     = Inr \<lparr>elems = [], m_maxsize = 2, m_def = PInf, m_pos = 0, m_maxpos = 0\<rparr>"
    by (simp add: Diffs_ctor_def)
  from C7_equal_pushes_trace [OF c] c show ?thesis by blast
qed

text \<open>
  Claim C7 as stated fails for the default \<open>0\<close>: the second answer is \<open>4\<close>, not the
  default.
\<close>

theorem C7_counterexample:
  "maxDiff_trace (2 ^ 60 - 1) 2 (Fin 0) [Fin 4, Fin 4, Fin 4, Fin 4]
     = Inr [Fin 0, Fin 4, Fin 4, Fin 4]
   \<and> maxDiff_trace (2 ^ 60 - 1) 2 (Fin 0) [Fin 4, Fin 4, Fin 4, Fin 4]
     \<noteq> Inr [Fin 0, Fin 0, Fin 4, Fin 4]"
  by (simp add: maxDiff_trace_def Diffs_ctor_def maxDiff_def push_def deref_def assign_def
      Real_greater_def max_element_def)

text \<open>
  Claim C8, as amended.  No comparison finds a NaN greater or anything smaller than a NaN.
  On an object constructed with a capacity of at least \<open>1\<close>, after any sequence of at least
  capacity pushes, \<open>maxDiff()\<close> returns the value of the slot under \<open>_maxpos\<close>, and that
  value is a NaN only if \<open>_maxpos\<close> is the first slot of the vector: a NaN stored in any
  other slot is never selected.
\<close>

theorem C8_nan_only_in_first_slot:
  assumes "Diffs_ctor max_size maxsize def = Inr d0" and "1 \<le> sint maxsize"
  shows "\<not> Real_greater NaN y \<and> \<not> Real_less y NaN
    \<and> (\<exists>d. pushes d0 xs = Inr d
          \<and> (nat (sint maxsize) \<le> length xs \<longrightarrow>
               maxDiff d = Inr (elems d ! m_maxpos d, d)
               \<and> (elems d ! m_maxpos d = NaN \<longrightarrow> m_maxpos d = 0)))"
proof -
  from ctor_pushes [OF assms] obtain d
    where p: "pushes d0 xs = Inr d" and t: "tracks d xs"
      and c: "unat (m_maxsize d) = nat (sint maxsize)"
    by blast
  from assms have t0: "tracks d0 []" by (rule tracks_ctor)
  then have "wf d0" and "nan_front d0" by (simp_all add: tracks_def nan_front_def wf_def)
  then have nf: "nan_front d" using p by (rule nan_front_pushes)
  have "maxDiff d = Inr (elems d ! m_maxpos d, d) \<and> (elems d ! m_maxpos d = NaN \<longrightarrow> m_maxpos d = 0)"
    if "nat (sint maxsize) \<le> length xs"
  proof -
    from that c have le: "unat (m_maxsize d) \<le> length xs" by simp
    note full = tracks_full_maxDiff [OF t le]
    from full(2) nf have "elems d ! m_maxpos d = NaN \<longrightarrow> m_maxpos d = 0"
      by (auto simp add: nan_front_def)
    with full(1) show ?thesis by simp
  qed
  moreover have "\<not> Real_greater NaN y" and "\<not> Real_less y NaN"
    by (cases y; simp add: Real_greater_def)+
  ultimately show ?thesis using p by blast
qed

text \<open>
  The amended claim C8 at capacity \<open>2\<close> on the pushes \<open>1, NaN, 0\<close>.
\<close>

theorem C8_nan_only_in_first_slot_witness:
  "Diffs_ctor (2 ^ 60 - 1) 2 (Fin 0)
     = Inr \<lparr>elems = [], m_maxsize = 2, m_def = Fin 0, m_pos = 0, m_maxpos = 0\<rparr>
   \<and> 1 \<le> sint (2 :: long)
   \<and> nat (sint (2 :: long)) \<le> length [Fin 1, NaN, Fin 0]
   \<and> (\<exists>d. pushes \<lparr>elems = [], m_maxsize = 2, m_def = Fin 0, m_pos = 0, m_maxpos = 0\<rparr>
              [Fin 1, NaN, Fin 0] = Inr d
          \<and> maxDiff d = Inr (elems d ! m_maxpos d, d))"
proof -
  have c: "Diffs_ctor (2 ^ 60 - 1) 2 (Fin 0)
     = Inr \<lparr>elems = [], m_maxsize = 2, m_def = Fin 0, m_pos = 0, m_maxpos = 0\<rparr>"
    by (simp add: Diffs_ctor_def)
  have p: "1 \<le> sint (2 :: long)" by simp
  have l: "nat (sint (2 :: long)) \<le> length [Fin 1, NaN, Fin 0]" by simp
  from C8_nan_only_in_first_slot [OF c p, of _ "[Fin 1, NaN, Fin 0]"] c p l show ?thesis by blast
qed

text \<open>
  Claim C8 as stated fails: with capacity \<open>3\<close> and the pushes \<open>NaN, 1, 2\<close> the third
  answer of \<open>maxDiff()\<close> is the NaN, although it is not the only value inserted.
\<close>

theorem C8_counterexample:
  "maxDiff_trace (2 ^ 60 - 1) 3 (Fin 0) [NaN, Fin 1, Fin 2] = Inr [Fin 0, Fin 0, NaN]"
  by (simp add: maxDiff_trace_def Diffs_ctor_def maxDiff_def push_def deref_def assign_def)

text \<open>
  Claim C9.  \<open>maxDiff\<close> returns the object as it found it, so any number of calls in a row
  give the same answer and leave the object unchanged; no sequence of \<open>push\<close> and \<open>maxDiff\<close>
  calls changes \<open>_maxsize\<close> or \<open>_def\<close>; and \<open>maxSize\<close> reports \<open>_maxsize\<close>.
\<close>

theorem C9_maxDiff_pure:
  "(maxDiff d = Inr (v, d') \<longrightarrow>
      d' = d \<and> (\<forall>n. run d (replicate n MaxDiff) = Inr (replicate n v, d)))
   \<and> (run d cs = Inr (outs, d'') \<longrightarrow> m_maxsize d'' = m_maxsize d \<and> m_def d'' = m_def d)
   \<and> maxSize d = (m_maxsize d, d)"
proof (intro conjI impI allI)
  assume a: "maxDiff d = Inr (v, d')"
  then show eq: "d' = d" by (rule maxDiff_same)
  fix n
  from a eq have "maxDiff d = Inr (v, d)" by simp
  then show "run d (replicate n MaxDiff) = Inr (replicate n v, d)" by (rule run_maxDiffs)
next
  assume "run d cs = Inr (outs, d'')"
  then show "m_maxsize d'' = m_maxsize d" and "m_def d'' = m_def d"
    using run_frame by blast+
next
  show "maxSize d = (m_maxsize d, d)" by (simp add: maxSize_def)
qed

text \<open>Claim C9 on a full window of capacity \<open>2\<close>.\<close>

theorem C9_maxDiff_pure_witness:
  "maxDiff \<lparr>elems = [Fin 1, Fin 3], m_maxsize = 2, m_def = Fin 0, m_pos = 2, m_maxpos = 1\<rparr>
     = Inr (Fin 3, \<lparr>elems = [Fin 1, Fin 3], m_maxsize = 2, m_def = Fin 0, m_pos = 2, m_maxpos = 1\<rparr>)
   \<and> run \<lparr>elems = [Fin 1, Fin 3], m_maxsize = 2, m_def = Fin 0, m_pos = 2, m_maxpos = 1\<rparr>
        (replicate 3 MaxDiff)
     = Inr (replicate 3 (Fin 3),
         \<lparr>elems = [Fin 1, Fin 3], m_maxsize = 2, m_def = Fin 0, m_pos = 2, m_maxpos = 1\<rparr>)
   \<and> run \<lparr>elems = [Fin 1, Fin 3], m_maxsize = 2, m_def = Fin 0, m_pos = 2, m_maxpos = 1\<rparr>
        [Push (Fin 7), MaxDiff]
     = Inr ([Fin 7], \<lparr>elems = [Fin 7, Fin 3], m_maxsize = 2, m_def = Fin 0, m_pos = 1, m_maxpos = 0\<rparr>)
   \<and> m_maxsize \<lparr>elems = [Fin 7, Fin 3], m_maxsize = 2, m_def = Fin 0, m_pos = 1, m_maxpos = 0\<rparr> = 2"
proof -
  let ?d = "\<lparr>elems = [Fin 1, Fin 3], m_maxsize = 2, m_def = Fin 0, m_pos = 2, m_maxpos = 1\<rparr>"
  let ?e = "\<lparr>elems = [Fin 7, Fin 3], m_maxsize = 2, m_def = Fin 0, m_pos = 1, m_maxpos = 0\<rparr>"
  have m: "maxDiff ?d = Inr (Fin 3, ?d)"
    by (simp add: maxDiff_def deref_def)
  have r: "run ?d [Push (Fin 7), MaxDiff] = Inr ([Fin 7], ?e)"
    by (simp add: maxDiff_def push_def deref_def assign_def Real_greater_def)
  from C9_maxDiff_pure [of ?d "Fin 3" ?d "[Push (Fin 7), MaxDiff]" "[Fin 7]" ?e] m r
  show ?thesis by simp
qed

text \<open>
  Claim C10.  With capacity \<open>0\<close> the constructor completes, whatever \<open>max_size()\<close> is, and
  on the object it yields both \<open>maxDiff\<close> and \<open>push\<close> go out of bounds: \<open>maxDiff\<close> reads
  through \<open>_maxpos\<close> in an empty vector, and \<open>push\<close> takes the branch of the full window and
  writes through \<open>_pos\<close>.
\<close>

theorem C10_zero_capacity:
  "Diffs_ctor max_size 0 def = Inr \<lparr>elems = [], m_maxsize = 0, m_def = def, m_pos = 0, m_maxpos = 0\<rparr>
   \<and> maxDiff \<lparr>elems = [], m_maxsize = 0, m_def = def, m_pos = 0, m_maxpos = 0\<rparr> = Inl Out_of_bounds
   \<and> push x \<lparr>elems = [], m_maxsize = 0, m_def = def, m_pos = 0, m_maxpos = 0\<rparr> = Inl Out_of_bounds"
  by (simp add: Diffs_ctor_def maxDiff_def push_def deref_def assign_def)

end
